theory Spec2Isabelle
  imports Main
begin

section \<open>microFSM event dispatch: data model\<close>

text \<open>
  The module \<^verbatim>\<open>event.c\<close> works on three structs declared in \<^verbatim>\<open>event.h\<close>:
  an event (one \<^verbatim>\<open>int id\<close>), an event listener (an array \<^verbatim>\<open>events\<close> of
  \<^verbatim>\<open>MAX_EVENTS\<close> events and an \<^verbatim>\<open>int numEvents\<close>) and an event queue (an array
  \<^verbatim>\<open>listeners\<close> of \<^verbatim>\<open>MAX_EVENT_LISTENERS\<close> listener pointers and an
  \<^verbatim>\<open>int numListeners\<close>). The two capacities are macros of the header; every function
  that reads one takes it as its first argument.

  A pointer is an address, \<open>0\<close> being the null pointer, as the code tests it
  (\<^verbatim>\<open>el == 0\<close>). Memory is split by type: one partial map per struct type, from
  addresses to the struct stored there. Every function returns an \<open>option\<close>:
  \<open>None\<close> stands for undefined behaviour of the C program (a dereference of a null
  or unallocated pointer, an array index out of range); \<open>Some (r, s)\<close> is a normal
  return with the \<^verbatim>\<open>int\<close> result \<open>r\<close> and the memory \<open>s\<close> afterwards.
  Since memory is split by type, the destination event of \<^verbatim>\<open>getNextEvent\<close> is an
  object of its own, never an element of a listener's buffer.

  The \<^verbatim>\<open>int\<close> counters are modelled as unbounded integers: each increment is
  guarded by a comparison with a capacity and each decrement by a comparison with
  \<open>1\<close>, so none of them can overflow.
\<close>

type_synonym ptr = nat

record mfsm_Event =
  event_id :: int

record mfsm_EventListener =
  events :: "mfsm_Event list"
  numEvents :: int

record mfsm_EventQueue =
  listeners :: "ptr list"
  numListeners :: int

record store =
  event_mem :: "ptr \<rightharpoonup> mfsm_Event"
  listener_mem :: "ptr \<rightharpoonup> mfsm_EventListener"
  queue_mem :: "ptr \<rightharpoonup> mfsm_EventQueue"

text \<open>Reading and writing a C array at an \<^verbatim>\<open>int\<close> index; out of range is undefined.\<close>

definition array_get :: "'a list \<Rightarrow> int \<Rightarrow> 'a option" where
  "array_get xs i = (if 0 \<le> i \<and> nat i < length xs then Some (xs ! nat i) else None)"

definition array_set :: "'a list \<Rightarrow> int \<Rightarrow> 'a \<Rightarrow> 'a list option" where
  "array_set xs i v = (if 0 \<le> i \<and> nat i < length xs then Some (xs[nat i := v]) else None)"

text \<open>Dereferencing a pointer: the null pointer is never a valid object.\<close>

definition deref :: "(ptr \<rightharpoonup> 'a) \<Rightarrow> ptr \<Rightarrow> 'a option" where
  "deref m p = (if p = 0 then None else m p)"

section \<open>Event and EventListener functions\<close>

definition initEvent :: "ptr \<Rightarrow> int \<Rightarrow> store \<Rightarrow> store option" where
  "initEvent e i s =
     (case deref (event_mem s) e of
        None \<Rightarrow> None
      | Some ev \<Rightarrow> Some (s\<lparr>event_mem := (event_mem s)(e \<mapsto> ev\<lparr>event_id := i\<rparr>)\<rparr>))"

definition initEventListener :: "ptr \<Rightarrow> store \<Rightarrow> store option" where
  "initEventListener el s =
     (case deref (listener_mem s) el of
        None \<Rightarrow> None
      | Some l \<Rightarrow> Some (s\<lparr>listener_mem := (listener_mem s)(el \<mapsto> l\<lparr>numEvents := 0\<rparr>)\<rparr>))"

definition getNextEvent :: "ptr \<Rightarrow> ptr \<Rightarrow> store \<Rightarrow> (int \<times> store) option" where
  "getNextEvent el dest s =
     (if el = 0 then Some (- 1, s)
      else if dest = 0 then Some (- 2, s)
      else case deref (listener_mem s) el of
        None \<Rightarrow> None
      | Some l \<Rightarrow>
          if numEvents l < 1 then Some (- 3, s)
          else case array_get (events l) (numEvents l - 1) of
            None \<Rightarrow> None
          | Some ev \<Rightarrow>
             (case deref (event_mem s) dest of
                None \<Rightarrow> None
              | Some d \<Rightarrow>
                  Some (numEvents l - 1,
                        s\<lparr>event_mem := (event_mem s)(dest \<mapsto> d\<lparr>event_id := event_id ev\<rparr>),
                          listener_mem := (listener_mem s)(el \<mapsto> l\<lparr>numEvents := numEvents l - 1\<rparr>)\<rparr>)))"

definition appendEvent :: "nat \<Rightarrow> ptr \<Rightarrow> mfsm_Event \<Rightarrow> store \<Rightarrow> (int \<times> store) option" where
  "appendEvent MAX_EVENTS el e s =
     (if el = 0 then Some (- 1, s)
      else case deref (listener_mem s) el of
        None \<Rightarrow> None
      | Some l \<Rightarrow>
          if numEvents l \<ge> int MAX_EVENTS then Some (- 2, s)
          else case array_get (events l) (numEvents l) of
            None \<Rightarrow> None
          | Some old \<Rightarrow>
             (case array_set (events l) (numEvents l) (old\<lparr>event_id := event_id e\<rparr>) of
                None \<Rightarrow> None
              | Some evs \<Rightarrow>
                  Some (numEvents l + 1,
                        s\<lparr>listener_mem :=
                            (listener_mem s)(el \<mapsto> l\<lparr>events := evs, numEvents := numEvents l + 1\<rparr>)\<rparr>)))"

section \<open>EventQueue functions\<close>

text \<open>The loop of \<^verbatim>\<open>initEventQueue\<close>, from index \<open>i\<close>: every slot is set to null.\<close>

function initEventQueue_loop :: "nat \<Rightarrow> nat \<Rightarrow> ptr list \<Rightarrow> ptr list option" where
  "initEventQueue_loop MAX_EVENT_LISTENERS i ls =
     (if i < MAX_EVENT_LISTENERS then
        (case array_set ls (int i) 0 of
           None \<Rightarrow> None
         | Some ls' \<Rightarrow> initEventQueue_loop MAX_EVENT_LISTENERS (i + 1) ls')
      else Some ls)"
  by pat_completeness auto
termination
  by (relation "measure (\<lambda>(m, i, ls). m - i)") auto

definition initEventQueue :: "nat \<Rightarrow> ptr \<Rightarrow> store \<Rightarrow> store option" where
  "initEventQueue MAX_EVENT_LISTENERS eq s =
     (case deref (queue_mem s) eq of
        None \<Rightarrow> None
      | Some q \<Rightarrow>
         (case initEventQueue_loop MAX_EVENT_LISTENERS 0 (listeners q) of
            None \<Rightarrow> None
          | Some ls \<Rightarrow>
              Some (s\<lparr>queue_mem := (queue_mem s)(eq \<mapsto> q\<lparr>listeners := ls, numListeners := 0\<rparr>)\<rparr>)))"

text \<open>
  The loop of \<^verbatim>\<open>addListener\<close>, from index \<open>i\<close>: the first null slot takes the
  listener and the function returns 0 from inside the loop; falling out of the loop is
  the \<^verbatim>\<open>return -2\<close> after it.
\<close>

function addListener_loop ::
  "nat \<Rightarrow> nat \<Rightarrow> ptr \<Rightarrow> mfsm_EventQueue \<Rightarrow> (int \<times> mfsm_EventQueue) option" where
  "addListener_loop MAX_EVENT_LISTENERS i el q =
     (if i < MAX_EVENT_LISTENERS then
        (case array_get (listeners q) (int i) of
           None \<Rightarrow> None
         | Some p \<Rightarrow>
             if p = 0 then
               Some (0, q\<lparr>listeners := (listeners q)[i := el], numListeners := numListeners q + 1\<rparr>)
             else addListener_loop MAX_EVENT_LISTENERS (i + 1) el q)
      else Some (- 2, q))"
  by pat_completeness auto
termination
  by (relation "measure (\<lambda>(m, i, el, q). m - i)") auto

definition addListener :: "nat \<Rightarrow> ptr \<Rightarrow> ptr \<Rightarrow> store \<Rightarrow> (int \<times> store) option" where
  "addListener MAX_EVENT_LISTENERS eq el s =
     (if eq = 0 then Some (- 1, s)
      else if el = 0 then Some (- 3, s)
      else case deref (queue_mem s) eq of
        None \<Rightarrow> None
      | Some q \<Rightarrow>
          if numListeners q \<ge> int MAX_EVENT_LISTENERS then Some (- 2, s)
          else case addListener_loop MAX_EVENT_LISTENERS 0 el q of
            None \<Rightarrow> None
          | Some (r, q') \<Rightarrow> Some (r, s\<lparr>queue_mem := (queue_mem s)(eq \<mapsto> q')\<rparr>))"

text \<open>
  The loop of \<^verbatim>\<open>removeListener\<close>, from index \<open>i\<close>: the first slot equal to the
  listener is nullified and the function returns 0; falling out of the loop is the
  \<^verbatim>\<open>return -4\<close> after it.
\<close>

function removeListener_loop ::
  "nat \<Rightarrow> nat \<Rightarrow> ptr \<Rightarrow> mfsm_EventQueue \<Rightarrow> (int \<times> mfsm_EventQueue) option" where
  "removeListener_loop MAX_EVENT_LISTENERS i el q =
     (if i < MAX_EVENT_LISTENERS then
        (case array_get (listeners q) (int i) of
           None \<Rightarrow> None
         | Some p \<Rightarrow>
             if p = el then
               Some (0, q\<lparr>listeners := (listeners q)[i := 0], numListeners := numListeners q - 1\<rparr>)
             else removeListener_loop MAX_EVENT_LISTENERS (i + 1) el q)
      else Some (- 4, q))"
  by pat_completeness auto
termination
  by (relation "measure (\<lambda>(m, i, el, q). m - i)") auto

definition removeListener :: "nat \<Rightarrow> ptr \<Rightarrow> ptr \<Rightarrow> store \<Rightarrow> (int \<times> store) option" where
  "removeListener MAX_EVENT_LISTENERS eq el s =
     (if eq = 0 then Some (- 1, s)
      else if el = 0 then Some (- 3, s)
      else case deref (queue_mem s) eq of
        None \<Rightarrow> None
      | Some q \<Rightarrow>
          if numListeners q < 1 then Some (- 2, s)
          else case removeListener_loop MAX_EVENT_LISTENERS 0 el q of
            None \<Rightarrow> None
          | Some (r, q') \<Rightarrow> Some (r, s\<lparr>queue_mem := (queue_mem s)(eq \<mapsto> q')\<rparr>))"

text \<open>
  \<^verbatim>\<open>sendEvent\<close> receives the queue struct itself, not a pointer to it. Its loop runs
  while \<^verbatim>\<open>i < eq.numListeners\<close> and counts the negative results of
  \<^verbatim>\<open>appendEvent\<close> in \<open>numErrors\<close>; the loop returns the final \<open>numErrors\<close>.
\<close>

function sendEvent_loop ::
  "nat \<Rightarrow> mfsm_EventQueue \<Rightarrow> mfsm_Event \<Rightarrow> nat \<Rightarrow> int \<Rightarrow> store \<Rightarrow> (int \<times> store) option" where
  "sendEvent_loop MAX_EVENTS eq e i numErrors s =
     (if int i < numListeners eq then
        (case array_get (listeners eq) (int i) of
           None \<Rightarrow> None
         | Some p \<Rightarrow>
            (case appendEvent MAX_EVENTS p e s of
               None \<Rightarrow> None
             | Some (r, s') \<Rightarrow>
                 sendEvent_loop MAX_EVENTS eq e (i + 1)
                   (if r < 0 then numErrors + 1 else numErrors) s'))
      else Some (numErrors, s))"
  by pat_completeness auto
termination
  by (relation "measure (\<lambda>(m, eq, e, i, n, s). nat (numListeners eq - int i))") auto

definition sendEvent :: "nat \<Rightarrow> mfsm_EventQueue \<Rightarrow> mfsm_Event \<Rightarrow> store \<Rightarrow> (int \<times> store) option" where
  "sendEvent MAX_EVENTS eq e s =
     (case sendEvent_loop MAX_EVENTS eq e 0 0 s of
        None \<Rightarrow> None
      | Some (numErrors, s') \<Rightarrow> if numErrors \<noteq> 0 then Some (- 1, s') else Some (0, s'))"

declare initEventQueue_loop.simps [simp del]
declare addListener_loop.simps [simp del]
declare removeListener_loop.simps [simp del]
declare sendEvent_loop.simps [simp del]

section \<open>Call sequences and example memories\<close>

text \<open>
  The claims speak of sequences of calls. \<open>appendEvents\<close> enqueues a list of events
  into one listener, in order, and collects the results of the calls;
  \<open>registry_calls\<close> runs a list of \<^verbatim>\<open>addListener\<close> and \<^verbatim>\<open>removeListener\<close>
  calls on one queue. Both stop with \<open>None\<close> at the first undefined call.
\<close>

fun appendEvents ::
  "nat \<Rightarrow> ptr \<Rightarrow> mfsm_Event list \<Rightarrow> store \<Rightarrow> (int list \<times> store) option" where
  "appendEvents MAX_EVENTS el [] s = Some ([], s)"
| "appendEvents MAX_EVENTS el (e # es) s =
     (case appendEvent MAX_EVENTS el e s of
        None \<Rightarrow> None
      | Some (r, s') \<Rightarrow>
         (case appendEvents MAX_EVENTS el es s' of
            None \<Rightarrow> None
          | Some (rs, s'') \<Rightarrow> Some (r # rs, s'')))"

datatype registry_call = Add ptr | Remove ptr

fun run_call :: "nat \<Rightarrow> ptr \<Rightarrow> registry_call \<Rightarrow> store \<Rightarrow> (int \<times> store) option" where
  "run_call MAX_EVENT_LISTENERS eq (Add el) s = addListener MAX_EVENT_LISTENERS eq el s"
| "run_call MAX_EVENT_LISTENERS eq (Remove el) s = removeListener MAX_EVENT_LISTENERS eq el s"

fun registry_calls :: "nat \<Rightarrow> ptr \<Rightarrow> registry_call list \<Rightarrow> store \<Rightarrow> store option" where
  "registry_calls MAX_EVENT_LISTENERS eq [] s = Some s"
| "registry_calls MAX_EVENT_LISTENERS eq (c # cs) s =
     (case run_call MAX_EVENT_LISTENERS eq c s of
        None \<Rightarrow> None
      | Some (r, s') \<Rightarrow> registry_calls MAX_EVENT_LISTENERS eq cs s')"

text \<open>The number of non-null slots of a queue, and the ids a listener buffers, oldest first.\<close>

definition occupied :: "mfsm_EventQueue \<Rightarrow> nat" where
  "occupied q = length (filter (\<lambda>p. p \<noteq> 0) (listeners q))"

definition buffered :: "mfsm_EventListener \<Rightarrow> int list" where
  "buffered l = map event_id (take (nat (numEvents l)) (events l))"

text \<open>
  The registry invariant: the array has its declared size and \<open>numListeners\<close> is the
  number of non-null slots.
\<close>

definition registry_ok :: "nat \<Rightarrow> mfsm_EventQueue \<Rightarrow> bool" where
  "registry_ok MAX_EVENT_LISTENERS q \<longleftrightarrow>
     length (listeners q) = MAX_EVENT_LISTENERS \<and> numListeners q = int (occupied q)"

text \<open>
  The slots of a well-formed queue: each is null or points to an allocated listener
  with a non-negative count and a buffer of at least \<open>MAX_EVENTS\<close> events.
\<close>

definition listeners_valid :: "nat \<Rightarrow> store \<Rightarrow> ptr list \<Rightarrow> bool" where
  "listeners_valid MAX_EVENTS s ps \<longleftrightarrow>
     (\<forall>p\<in>set ps. p = 0 \<or>
        (case listener_mem s p of
           None \<Rightarrow> False
         | Some l \<Rightarrow> 0 \<le> numEvents l \<and> MAX_EVENTS \<le> length (events l)))"

text \<open>
  Example memories: an event with a given id, a listener with a buffer of a given
  capacity holding the given ids, and a memory built from association lists.
\<close>

definition ev :: "int \<Rightarrow> mfsm_Event" where
  "ev i = \<lparr>event_id = i\<rparr>"

definition listener_with :: "nat \<Rightarrow> int list \<Rightarrow> mfsm_EventListener" where
  "listener_with cap ids =
     \<lparr>events = map ev ids @ replicate (cap - length ids) (ev 0), numEvents = int (length ids)\<rparr>"

definition memory ::
  "(ptr \<times> mfsm_Event) list \<Rightarrow> (ptr \<times> mfsm_EventListener) list \<Rightarrow>
   (ptr \<times> mfsm_EventQueue) list \<Rightarrow> store" where
  "memory es ls qs = \<lparr>event_mem = map_of es, listener_mem = map_of ls, queue_mem = map_of qs\<rparr>"

text \<open>
  A concrete run, with \<open>MAX_EVENT_LISTENERS = 2\<close> and \<open>MAX_EVENTS = 1\<close>: two empty
  listeners at the addresses 1 and 2, a destination event at 9 and a queue at 5;
  \<open>after_calls cs\<close> is the memory after \<^verbatim>\<open>initEventQueue\<close> and the calls \<open>cs\<close>.
\<close>

definition two_listener_memory :: store where
  "two_listener_memory =
     memory [(9, ev 0)] [(1, listener_with 1 []), (2, listener_with 1 [])]
       [(5, \<lparr>listeners = [0, 0], numListeners = 0\<rparr>)]"

definition after_calls :: "registry_call list \<Rightarrow> store" where
  "after_calls cs =
     the (case initEventQueue 2 5 two_listener_memory of
            None \<Rightarrow> None
          | Some s \<Rightarrow> registry_calls 2 5 cs s)"

section \<open>Enqueue and dequeue on one listener\<close>


lemma event_update_eq: "(old::mfsm_Event)\<lparr>event_id := event_id e\<rparr> = e"
  by simp

lemma appendEvent_null: "appendEvent ME 0 e s = Some (- 1, s)"
  by (simp add: appendEvent_def)

lemma appendEvent_full:
  "el \<noteq> 0 \<Longrightarrow> listener_mem s el = Some l \<Longrightarrow> int ME \<le> numEvents l \<Longrightarrow>
   appendEvent ME el e s = Some (- 2, s)"
  by (simp add: appendEvent_def deref_def)

lemma appendEvent_room:
  "el \<noteq> 0 \<Longrightarrow> listener_mem s el = Some l \<Longrightarrow> 0 \<le> numEvents l \<Longrightarrow> numEvents l < int ME \<Longrightarrow>
   nat (numEvents l) < length (events l) \<Longrightarrow>
   appendEvent ME el e s =
     Some (numEvents l + 1,
           s\<lparr>listener_mem := (listener_mem s)(el \<mapsto>
                l\<lparr>events := (events l)[nat (numEvents l) := e], numEvents := numEvents l + 1\<rparr>)\<rparr>)"
  by (simp add: appendEvent_def deref_def array_get_def array_set_def event_update_eq)

lemma appendEvent_failure:
  "appendEvent ME el e s = Some (r, s') \<Longrightarrow> r < 0 \<Longrightarrow> s' = s"
  by (auto simp: appendEvent_def deref_def array_get_def array_set_def
           split: if_splits option.splits)

lemma appendEvent_success:
  assumes "appendEvent ME el e s = Some (r, s')" and "0 \<le> r"
  shows "\<exists>l. el \<noteq> 0 \<and> listener_mem s el = Some l \<and> 0 \<le> numEvents l \<and> numEvents l < int ME \<and>
             nat (numEvents l) < length (events l) \<and> r = numEvents l + 1 \<and>
             s' = s\<lparr>listener_mem := (listener_mem s)(el \<mapsto>
                l\<lparr>events := (events l)[nat (numEvents l) := e], numEvents := numEvents l + 1\<rparr>)\<rparr>"
  using assms
  by (auto simp: appendEvent_def deref_def array_get_def array_set_def event_update_eq
           split: if_splits option.splits)

lemma buffered_append:
  "0 \<le> numEvents l \<Longrightarrow> nat (numEvents l) < length (events l) \<Longrightarrow>
   buffered (l\<lparr>events := (events l)[nat (numEvents l) := e], numEvents := numEvents l + 1\<rparr>) =
   buffered l @ [event_id e]"
  by (simp add: buffered_def nat_add_distrib take_Suc_conv_app_nth)

lemma getNextEvent_pops:
  assumes "el \<noteq> 0" "dest \<noteq> 0" "listener_mem s el = Some l" "event_mem s dest = Some d"
    and "buffered l = bs @ [b]" "numEvents l \<le> int (length (events l))"
  shows "\<exists>s'. getNextEvent el dest s = Some (numEvents l - 1, s') \<and>
           event_mem s' dest = Some (ev b) \<and>
           listener_mem s' el = Some (l\<lparr>numEvents := numEvents l - 1\<rparr>) \<and>
           buffered (l\<lparr>numEvents := numEvents l - 1\<rparr>) = bs \<and>
           events (l\<lparr>numEvents := numEvents l - 1\<rparr>) = events l"
proof -
  from assms(5,6) have len: "nat (numEvents l) = Suc (length bs)"
    by (metis buffered_def length_append_singleton length_map length_take min.absorb2 nat_le_iff nat_int)
  hence pos: "1 \<le> numEvents l" by linarith
  have inr: "nat (numEvents l - 1) < length (events l)" using len assms(6) by linarith
  have n1: "nat (numEvents l - 1) = length bs" using len by linarith
  have "map event_id (take (Suc (length bs)) (events l)) = bs @ [b]"
    using assms(5) len by (simp add: buffered_def)
  hence tk: "map event_id (take (length bs) (events l)) @ [event_id (events l ! length bs)] = bs @ [b]"
    using inr n1 by (simp add: take_Suc_conv_app_nth)
  hence b: "event_id (events l ! length bs) = b" and bs: "map event_id (take (length bs) (events l)) = bs"
    by simp_all
  show ?thesis
    using assms(1-4) pos inr n1 b bs
    by (simp add: getNextEvent_def deref_def array_get_def buffered_def ev_def)
qed


lemma upt_0_Suc_map: "[0..<Suc m] = 0 # map Suc [0..<m]"
  by (simp add: upt_conv_Cons map_Suc_upt del: upt_Suc)

lemma appendEvents_run:
  assumes "el \<noteq> 0" "listener_mem s el = Some l" "0 \<le> numEvents l" "numEvents l \<le> int ME"
    and "length (events l) = ME"
  shows "\<exists>s' l'. appendEvents ME el es s =
            Some (map (\<lambda>k. if nat (numEvents l) + k < ME then numEvents l + int k + 1 else - 2)
                    [0..<length es], s') \<and>
          listener_mem s' el = Some l' \<and>
          numEvents l' = min (int ME) (numEvents l + int (length es)) \<and>
          length (events l') = ME \<and>
          buffered l' = buffered l @ map event_id (take (ME - nat (numEvents l)) es)"
  using assms
proof (induction es arbitrary: s l)
  case Nil
  then show ?case by simp
next
  case (Cons e es)
  show ?case
  proof (cases "numEvents l < int ME")
    case True
    let ?l1 = "l\<lparr>events := (events l)[nat (numEvents l) := e], numEvents := numEvents l + 1\<rparr>"
    let ?s1 = "s\<lparr>listener_mem := (listener_mem s)(el \<mapsto> ?l1)\<rparr>"
    have inr: "nat (numEvents l) < length (events l)" using True Cons.prems by linarith
    have step: "appendEvent ME el e s = Some (numEvents l + 1, ?s1)"
      using Cons.prems True inr by (intro appendEvent_room) auto
    have "\<exists>s' l'. appendEvents ME el es ?s1 =
            Some (map (\<lambda>k. if nat (numEvents ?l1) + k < ME then numEvents ?l1 + int k + 1 else - 2)
                    [0..<length es], s') \<and>
          listener_mem s' el = Some l' \<and>
          numEvents l' = min (int ME) (numEvents ?l1 + int (length es)) \<and>
          length (events l') = ME \<and>
          buffered l' = buffered ?l1 @ map event_id (take (ME - nat (numEvents ?l1)) es)"
      using Cons.prems True by (intro Cons.IH) auto
    then obtain s' l' where
      run: "appendEvents ME el es ?s1 =
            Some (map (\<lambda>k. if nat (numEvents ?l1) + k < ME then numEvents ?l1 + int k + 1 else - 2)
                    [0..<length es], s')"
      and l': "listener_mem s' el = Some l'"
        "numEvents l' = min (int ME) (numEvents ?l1 + int (length es))"
        "length (events l') = ME"
        "buffered l' = buffered ?l1 @ map event_id (take (ME - nat (numEvents ?l1)) es)"
      by blast
    have codes: "map (\<lambda>k. if nat (numEvents l) + k < ME then numEvents l + int k + 1 else - 2)
                   [0..<length (e # es)] =
                 (numEvents l + 1) #
                 map (\<lambda>k. if nat (numEvents ?l1) + k < ME then numEvents ?l1 + int k + 1 else - 2)
                   [0..<length es]"
      using True Cons.prems(3)
      by (simp add: upt_0_Suc_map nat_add_distrib comp_def del: upt_Suc)
    have buf: "buffered ?l1 @ map event_id (take (ME - nat (numEvents ?l1)) es) =
               buffered l @ map event_id (take (ME - nat (numEvents l)) (e # es))"
      using True Cons.prems(3) inr
      by (simp add: buffered_append take_Cons' nat_add_distrib)
    show ?thesis
      using step run l' codes buf by (simp del: upt_Suc)
  next
    case False
    hence full: "numEvents l = int ME" using Cons.prems by linarith
    have step: "appendEvent ME el e s = Some (- 2, s)"
      using Cons.prems full by (intro appendEvent_full) auto
    from Cons.IH[OF Cons.prems] obtain s' l' where
      run: "appendEvents ME el es s =
            Some (map (\<lambda>k. if nat (numEvents l) + k < ME then numEvents l + int k + 1 else - 2)
                    [0..<length es], s')"
      and l': "listener_mem s' el = Some l'"
        "numEvents l' = min (int ME) (numEvents l + int (length es))"
        "length (events l') = ME"
        "buffered l' = buffered l @ map event_id (take (ME - nat (numEvents l)) es)"
      by blast
    have codes: "map (\<lambda>k. if nat (numEvents l) + k < ME then numEvents l + int k + 1 else - 2)
                   [0..<length (e # es)] =
                 (- 2) #
                 map (\<lambda>k. if nat (numEvents l) + k < ME then numEvents l + int k + 1 else - 2)
                   [0..<length es]"
      using full by (simp add: upt_0_Suc_map comp_def del: upt_Suc)
    show ?thesis
      using step run l' codes full by (simp del: upt_Suc)
  qed
qed

lemma count_successes:
  "length (filter (\<lambda>r. 0 \<le> r) (map (\<lambda>k. if k < ME then int k + 1 else - 2) [0..<n])) = min ME n"
  by (induction n) auto


lemma initEventListener_ok:
  "el \<noteq> 0 \<Longrightarrow> listener_mem s el = Some l \<Longrightarrow>
   initEventListener el s = Some (s\<lparr>listener_mem := (listener_mem s)(el \<mapsto> l\<lparr>numEvents := 0\<rparr>)\<rparr>)"
  by (simp add: initEventListener_def deref_def)

text \<open>
  C3. On an initialized listener (\<^verbatim>\<open>initEventListener\<close>, buffer of \<open>MAX_EVENTS\<close>
  events), any sequence \<open>es\<close> of \<^verbatim>\<open>appendEvent\<close> calls returns: the first
  \<open>MAX_EVENTS\<close> calls succeed with the results 1, 2, ..., every later one fails with
  \<open>-2\<close>; the count afterwards is the number of successful calls and the buffer holds
  the events of the successful calls only. An enqueue at count \<open>MAX_EVENTS\<close> returns
  \<open>-2\<close> and the memory as it was, and every call that returns a negative result
  returns the memory as it was.
\<close>

theorem appendEvent_count_and_full:
  assumes "el \<noteq> 0" "listener_mem s el = Some l" "length (events l) = MAX_EVENTS"
  shows "\<exists>s0 rs s' l'.
           initEventListener el s = Some s0 \<and>
           appendEvents MAX_EVENTS el es s0 = Some (rs, s') \<and>
           listener_mem s' el = Some l' \<and>
           rs = map (\<lambda>k. if k < MAX_EVENTS then int k + 1 else - 2) [0..<length es] \<and>
           numEvents l' = int (length (filter (\<lambda>r. 0 \<le> r) rs)) \<and>
           buffered l' = map event_id (take MAX_EVENTS es) \<and>
           (numEvents l' = int MAX_EVENTS \<longrightarrow> appendEvent MAX_EVENTS el e s' = Some (- 2, s')) \<and>
           (\<forall>p s1 r s2. appendEvent MAX_EVENTS p e s1 = Some (r, s2) \<and> r < 0 \<longrightarrow> s2 = s1)"
proof -
  let ?l0 = "l\<lparr>numEvents := 0\<rparr>"
  let ?s0 = "s\<lparr>listener_mem := (listener_mem s)(el \<mapsto> ?l0)\<rparr>"
  have init: "initEventListener el s = Some ?s0"
    using assms by (simp add: initEventListener_ok)
  have "\<exists>s' l'. appendEvents MAX_EVENTS el es ?s0 =
            Some (map (\<lambda>k. if nat (numEvents ?l0) + k < MAX_EVENTS then numEvents ?l0 + int k + 1 else - 2)
                    [0..<length es], s') \<and>
          listener_mem s' el = Some l' \<and>
          numEvents l' = min (int MAX_EVENTS) (numEvents ?l0 + int (length es)) \<and>
          length (events l') = MAX_EVENTS \<and>
          buffered l' = buffered ?l0 @ map event_id (take (MAX_EVENTS - nat (numEvents ?l0)) es)"
    using assms by (intro appendEvents_run) auto
  then obtain s' l' where
    run: "appendEvents MAX_EVENTS el es ?s0 =
            Some (map (\<lambda>k. if k < MAX_EVENTS then int k + 1 else - 2) [0..<length es], s')"
    and l': "listener_mem s' el = Some l'"
      "numEvents l' = min (int MAX_EVENTS) (int (length es))"
      "buffered l' = map event_id (take MAX_EVENTS es)"
    by (auto simp: buffered_def)
  have cnt: "numEvents l' =
      int (length (filter (\<lambda>r. 0 \<le> r)
             (map (\<lambda>k. if k < MAX_EVENTS then int k + 1 else - 2) [0..<length es])))"
    using l'(2) by (simp only: count_successes)
  have full: "numEvents l' = int MAX_EVENTS \<longrightarrow> appendEvent MAX_EVENTS el e s' = Some (- 2, s')"
    using assms(1) l'(1) by (simp add: appendEvent_full)
  have frame: "\<forall>p s1 r s2. appendEvent MAX_EVENTS p e s1 = Some (r, s2) \<and> r < 0 \<longrightarrow> s2 = s1"
    by (blast dest: appendEvent_failure)
  show ?thesis
    using init run l'(1,3) cnt full frame by blast
qed

theorem appendEvent_count_and_full_witness:
  "\<exists>s0 s' l'.
     initEventListener 1 (memory [] [(1, listener_with 2 [5, 6])] []) = Some s0 \<and>
     appendEvents 2 1 [ev 7, ev 8, ev 9] s0 = Some ([1, 2, - 2], s') \<and>
     listener_mem s' 1 = Some l' \<and> numEvents l' = 2 \<and> buffered l' = [7, 8] \<and>
     appendEvent 2 1 (ev 4) s' = Some (- 2, s')"
proof -
  have h: "(1::nat) \<noteq> 0"
    "listener_mem (memory [] [(1, listener_with 2 [5, 6])] []) 1 = Some (listener_with 2 [5, 6])"
    "length (events (listener_with 2 [5, 6])) = 2"
    by (simp_all add: memory_def listener_with_def)
  have up: "[0..<3] = [0, 1, 2]" by (simp add: upt_rec)
  show ?thesis
    using appendEvent_count_and_full [OF h, of "[ev 7, ev 8, ev 9]" "ev 4"]
    by (auto simp: up ev_def)
qed


lemma appendEvents_success:
  assumes "appendEvents ME el es s = Some (rs, s')" "\<forall>r\<in>set rs. 0 \<le> r" "es \<noteq> []"
  shows "\<exists>l l'. el \<noteq> 0 \<and> listener_mem s el = Some l \<and> listener_mem s' el = Some l' \<and>
           0 \<le> numEvents l \<and> numEvents l' = numEvents l + int (length es) \<and>
           numEvents l' \<le> int (length (events l')) \<and>
           buffered l' = buffered l @ map event_id es \<and> event_mem s' = event_mem s"
  using assms(3,1,2)
proof (induction es arbitrary: s rs rule: list_nonempty_induct)
  case (single e)
  then obtain r where a: "appendEvent ME el e s = Some (r, s')" and r: "0 \<le> r"
    by (auto split: option.splits)
  from appendEvent_success[OF a r] show ?case
    by (auto simp: buffered_append)
next
  case (cons e es)
  from cons.prems obtain r s1 rs' where
    a: "appendEvent ME el e s = Some (r, s1)" and r: "0 \<le> r"
    and b: "appendEvents ME el es s1 = Some (rs', s')" and rs': "\<forall>r\<in>set rs'. 0 \<le> r"
    by (auto split: option.splits)
  from appendEvent_success[OF a r] obtain l where
    l: "el \<noteq> 0" "listener_mem s el = Some l" "0 \<le> numEvents l"
       "nat (numEvents l) < length (events l)"
    and s1: "s1 = s\<lparr>listener_mem := (listener_mem s)(el \<mapsto>
                l\<lparr>events := (events l)[nat (numEvents l) := e], numEvents := numEvents l + 1\<rparr>)\<rparr>"
    by blast
  from cons.IH[OF b rs'] obtain l1 l' where
    l1: "listener_mem s1 el = Some l1" "listener_mem s' el = Some l'"
        "numEvents l' = numEvents l1 + int (length es)"
        "numEvents l' \<le> int (length (events l'))"
        "buffered l' = buffered l1 @ map event_id es" "event_mem s' = event_mem s1"
    by blast
  from l1(1) s1 have "l1 = l\<lparr>events := (events l)[nat (numEvents l) := e], numEvents := numEvents l + 1\<rparr>"
    by simp
  with l l1 s1 show ?case
    by (simp add: buffered_append)
qed

text \<open>
  C2. Dequeue order is last in, first out. Whenever the three calls of
  \<^verbatim>\<open>appendEvent\<close> with the ids 1, 2, 3 on a listener all succeed (whatever the
  listener buffered before), three successive \<^verbatim>\<open>getNextEvent\<close> calls into an
  allocated destination return and copy the ids 3, then 2, then 1; each of them
  decrements the count by one and returns the new count.
\<close>

theorem getNextEvent_lifo:
  assumes "appendEvents MAX_EVENTS el [ev 1, ev 2, ev 3] s = Some (rs, s3)"
    and "\<forall>r\<in>set rs. 0 \<le> r"
    and "dest \<noteq> 0" "event_mem s dest = Some d"
  shows "\<exists>l3 s4 s5 s6.
           listener_mem s3 el = Some l3 \<and>
           getNextEvent el dest s3 = Some (numEvents l3 - 1, s4) \<and>
           event_mem s4 dest = Some (ev 3) \<and>
           listener_mem s4 el = Some (l3\<lparr>numEvents := numEvents l3 - 1\<rparr>) \<and>
           getNextEvent el dest s4 = Some (numEvents l3 - 2, s5) \<and>
           event_mem s5 dest = Some (ev 2) \<and>
           listener_mem s5 el = Some (l3\<lparr>numEvents := numEvents l3 - 2\<rparr>) \<and>
           getNextEvent el dest s5 = Some (numEvents l3 - 3, s6) \<and>
           event_mem s6 dest = Some (ev 1) \<and>
           listener_mem s6 el = Some (l3\<lparr>numEvents := numEvents l3 - 3\<rparr>)"
proof -
  from appendEvents_success[OF assms(1,2)] obtain l l3 where
    el: "el \<noteq> 0" and l3: "listener_mem s3 el = Some l3"
    and len: "numEvents l3 \<le> int (length (events l3))"
    and buf: "buffered l3 = buffered l @ [1, 2, 3]" and em: "event_mem s3 = event_mem s"
    by (auto simp: ev_def)
  let ?l4 = "l3\<lparr>numEvents := numEvents l3 - 1\<rparr>"
  let ?l5 = "l3\<lparr>numEvents := numEvents l3 - 2\<rparr>"
  let ?l6 = "l3\<lparr>numEvents := numEvents l3 - 3\<rparr>"
  from buf have buf3: "buffered l3 = (buffered l @ [1, 2]) @ [3]" by simp
  from getNextEvent_pops[OF el assms(3) l3 _ buf3 len] em assms(4)
  obtain s4 where g4: "getNextEvent el dest s3 = Some (numEvents l3 - 1, s4)"
    and d4: "event_mem s4 dest = Some (ev 3)" and l4: "listener_mem s4 el = Some ?l4"
    and buf4: "buffered ?l4 = buffered l @ [1, 2]"
    by auto
  from buf4 have buf4': "buffered ?l4 = (buffered l @ [1]) @ [2]" by simp
  have len4: "numEvents ?l4 \<le> int (length (events ?l4))" using len by simp
  from getNextEvent_pops[OF el assms(3) l4 d4 buf4' len4]
  obtain s5 where g5: "getNextEvent el dest s4 = Some (numEvents l3 - 2, s5)"
    and d5: "event_mem s5 dest = Some (ev 2)" and l5: "listener_mem s5 el = Some ?l5"
    and buf5: "buffered ?l5 = buffered l @ [1]"
    by auto
  have len5: "numEvents ?l5 \<le> int (length (events ?l5))" using len by simp
  from getNextEvent_pops[OF el assms(3) l5 d5 buf5 len5]
  obtain s6 where g6: "getNextEvent el dest s5 = Some (numEvents l3 - 3, s6)"
    and d6: "event_mem s6 dest = Some (ev 1)" and l6: "listener_mem s6 el = Some ?l6"
    by auto
  show ?thesis
    using l3 g4 d4 l4 g5 d5 l5 g6 d6 l6 by blast
qed


lemmas listener_eval_defs =
  appendEvent_def getNextEvent_def deref_def array_get_def array_set_def
  memory_def listener_with_def ev_def

theorem getNextEvent_lifo_witness:
  "\<exists>s3 s4 s5 s6.
     appendEvents 3 1 [ev 1, ev 2, ev 3] (memory [(9, ev 0)] [(1, listener_with 3 [])] []) =
       Some ([1, 2, 3], s3) \<and>
     getNextEvent 1 9 s3 = Some (2, s4) \<and> event_mem s4 9 = Some (ev 3) \<and>
     getNextEvent 1 9 s4 = Some (1, s5) \<and> event_mem s5 9 = Some (ev 2) \<and>
     getNextEvent 1 9 s5 = Some (0, s6) \<and> event_mem s6 9 = Some (ev 1)"
proof -
  let ?m = "memory [(9, ev 0)] [(1, listener_with 3 [])] []"
  define s3 where "s3 = snd (the (appendEvents 3 1 [ev 1, ev 2, ev 3] ?m))"
  have a: "appendEvents 3 1 [ev 1, ev 2, ev 3] ?m = Some ([1, 2, 3], s3)"
    unfolding s3_def by (simp add: listener_eval_defs)
  have n: "map_option numEvents (listener_mem s3 1) = Some 3"
    unfolding s3_def by (simp add: listener_eval_defs)
  have r: "\<forall>r\<in>set [1, 2, 3::int]. 0 \<le> r" by simp
  have d: "(9::nat) \<noteq> 0" "event_mem ?m 9 = Some (ev 0)"
    by (simp_all add: memory_def)
  from getNextEvent_lifo [OF a r d] n a show ?thesis
    by auto
qed

text \<open>
  C6. \<^verbatim>\<open>getNextEvent\<close> checks its arguments in priority order: a null listener gives
  \<open>-1\<close> whatever the destination is; otherwise a null destination gives \<open>-2\<close>
  whatever the listener holds; otherwise a listener with fewer than one event gives
  \<open>-3\<close>. In the three cases the memory is returned as it was, so the failed dequeue
  changes neither the count nor the buffer.
\<close>

theorem getNextEvent_check_order:
  "getNextEvent 0 dest s = Some (- 1, s) \<and>
   (el \<noteq> 0 \<longrightarrow> getNextEvent el 0 s = Some (- 2, s)) \<and>
   (el \<noteq> 0 \<and> dest \<noteq> 0 \<and> listener_mem s el = Some l \<and> numEvents l < 1 \<longrightarrow>
      getNextEvent el dest s = Some (- 3, s))"
  by (simp add: getNextEvent_def deref_def)

theorem getNextEvent_check_order_witness:
  "getNextEvent 0 9 (memory [(9, ev 0)] [(1, listener_with 3 [])] []) =
     Some (- 1, memory [(9, ev 0)] [(1, listener_with 3 [])] []) \<and>
   (1::nat) \<noteq> 0 \<and>
   getNextEvent 1 0 (memory [(9, ev 0)] [(1, listener_with 3 [])] []) =
     Some (- 2, memory [(9, ev 0)] [(1, listener_with 3 [])] []) \<and>
   (9::nat) \<noteq> 0 \<and>
   listener_mem (memory [(9, ev 0)] [(1, listener_with 3 [])] []) 1 = Some (listener_with 3 []) \<and>
   numEvents (listener_with 3 []) < 1 \<and>
   getNextEvent 1 9 (memory [(9, ev 0)] [(1, listener_with 3 [])] []) =
     Some (- 3, memory [(9, ev 0)] [(1, listener_with 3 [])] [])"
proof -
  let ?m = "memory [(9, ev 0)] [(1, listener_with 3 [])] []"
  have h: "(1::nat) \<noteq> 0" "(9::nat) \<noteq> 0" "listener_mem ?m 1 = Some (listener_with 3 [])"
    "numEvents (listener_with 3 []) < 1"
    by (simp_all add: memory_def listener_with_def)
  from getNextEvent_check_order [of 9 ?m 1 "listener_with 3 []"] h show ?thesis
    by simp
qed

section \<open>The registry of listeners\<close>


lemma initEventQueue_loop_eq:
  "i \<le> M \<Longrightarrow> length ls = M \<Longrightarrow>
   initEventQueue_loop M i ls = Some (take i ls @ replicate (M - i) 0)"
proof (induction M i ls rule: initEventQueue_loop.induct)
  case (1 M i ls)
  show ?case
  proof (cases "i < M")
    case True
    hence "initEventQueue_loop M (i + 1) (ls[i := 0]) =
           Some (take (i + 1) (ls[i := 0]) @ replicate (M - (i + 1)) 0)"
      using "1.prems" by (intro "1.IH") (auto simp: array_set_def)
    moreover have "take (i + 1) (ls[i := 0]) @ replicate (M - (i + 1)) 0 =
                   take i ls @ replicate (M - i) 0"
      using True "1.prems"
      by (simp add: take_Suc_conv_app_nth replicate_append_same Suc_diff_Suc flip: replicate_Suc)
    ultimately show ?thesis
      using True "1.prems"
      by (subst initEventQueue_loop.simps) (simp add: array_set_def)
  next
    case False
    with "1.prems" show ?thesis
      by (subst initEventQueue_loop.simps) simp
  qed
qed

lemma initEventQueue_ok:
  "eq \<noteq> 0 \<Longrightarrow> queue_mem s eq = Some q \<Longrightarrow> length (listeners q) = M \<Longrightarrow>
   initEventQueue M eq s =
     Some (s\<lparr>queue_mem := (queue_mem s)(eq \<mapsto> q\<lparr>listeners := replicate M 0, numListeners := 0\<rparr>)\<rparr>)"
  by (simp add: initEventQueue_def deref_def initEventQueue_loop_eq)

text \<open>The add loop from index i, on an array of the declared size.\<close>

lemma addListener_loop_full:
  "length (listeners q) = M \<Longrightarrow> \<forall>j. i \<le> j \<and> j < M \<longrightarrow> listeners q ! j \<noteq> 0 \<Longrightarrow>
   addListener_loop M i el q = Some (- 2, q)"
proof (induction M i el q rule: addListener_loop.induct)
  case (1 M i el q)
  show ?case
  proof (cases "i < M")
    case True
    with "1.prems" have "listeners q ! i \<noteq> 0" by simp
    moreover have "addListener_loop M (i + 1) el q = Some (- 2, q)"
      using True "1.prems" by (intro "1.IH") (auto simp: array_get_def)
    ultimately show ?thesis
      using True "1.prems" by (subst addListener_loop.simps) (simp add: array_get_def)
  next
    case False
    then show ?thesis by (subst addListener_loop.simps) simp
  qed
qed

lemma addListener_loop_found:
  "length (listeners q) = M \<Longrightarrow> i \<le> k \<Longrightarrow> k < M \<Longrightarrow> listeners q ! k = 0 \<Longrightarrow>
   \<forall>j. i \<le> j \<and> j < k \<longrightarrow> listeners q ! j \<noteq> 0 \<Longrightarrow>
   addListener_loop M i el q =
     Some (0, q\<lparr>listeners := (listeners q)[k := el], numListeners := numListeners q + 1\<rparr>)"
proof (induction M i el q rule: addListener_loop.induct)
  case (1 M i el q)
  show ?case
  proof (cases "i = k")
    case True
    with "1.prems" show ?thesis
      by (subst addListener_loop.simps) (simp add: array_get_def)
  next
    case False
    with "1.prems" have lt: "i < k" and nz: "listeners q ! i \<noteq> 0" by auto
    have "addListener_loop M (i + 1) el q =
          Some (0, q\<lparr>listeners := (listeners q)[k := el], numListeners := numListeners q + 1\<rparr>)"
      using lt nz "1.prems" by (intro "1.IH") (auto simp: array_get_def)
    then show ?thesis
      using lt nz "1.prems" by (subst addListener_loop.simps) (auto simp: array_get_def)
  qed
qed

lemma removeListener_loop_absent:
  "length (listeners q) = M \<Longrightarrow> \<forall>j. i \<le> j \<and> j < M \<longrightarrow> listeners q ! j \<noteq> el \<Longrightarrow>
   removeListener_loop M i el q = Some (- 4, q)"
proof (induction M i el q rule: removeListener_loop.induct)
  case (1 M i el q)
  show ?case
  proof (cases "i < M")
    case True
    with "1.prems" have "listeners q ! i \<noteq> el" by simp
    moreover have "removeListener_loop M (i + 1) el q = Some (- 4, q)"
      using True "1.prems" by (intro "1.IH") (auto simp: array_get_def)
    ultimately show ?thesis
      using True "1.prems" by (subst removeListener_loop.simps) (simp add: array_get_def)
  next
    case False
    then show ?thesis by (subst removeListener_loop.simps) simp
  qed
qed

lemma removeListener_loop_found:
  "length (listeners q) = M \<Longrightarrow> i \<le> k \<Longrightarrow> k < M \<Longrightarrow> listeners q ! k = el \<Longrightarrow>
   \<forall>j. i \<le> j \<and> j < k \<longrightarrow> listeners q ! j \<noteq> el \<Longrightarrow>
   removeListener_loop M i el q =
     Some (0, q\<lparr>listeners := (listeners q)[k := 0], numListeners := numListeners q - 1\<rparr>)"
proof (induction M i el q rule: removeListener_loop.induct)
  case (1 M i el q)
  show ?case
  proof (cases "i = k")
    case True
    with "1.prems" show ?thesis
      by (subst removeListener_loop.simps) (simp add: array_get_def)
  next
    case False
    with "1.prems" have lt: "i < k" and nz: "listeners q ! i \<noteq> el" by auto
    have "removeListener_loop M (i + 1) el q =
          Some (0, q\<lparr>listeners := (listeners q)[k := 0], numListeners := numListeners q - 1\<rparr>)"
      using lt nz "1.prems" by (intro "1.IH") (auto simp: array_get_def)
    then show ?thesis
      using lt nz "1.prems" by (subst removeListener_loop.simps) (simp add: array_get_def)
  qed
qed


lemma store_queue_same:
  "queue_mem s eq = Some q \<Longrightarrow> s\<lparr>queue_mem := (queue_mem s)(eq \<mapsto> q)\<rparr> = s"
  by (simp add: map_upd_triv)

lemma removeListener_result:
  assumes "eq \<noteq> 0" "el \<noteq> 0" "queue_mem s eq = Some q" "length (listeners q) = M"
  shows "removeListener M eq el s =
    (if numListeners q < 1 then Some (- 2, s)
     else if el \<notin> set (listeners q) then Some (- 4, s)
     else Some (0, s\<lparr>queue_mem := (queue_mem s)(eq \<mapsto>
            q\<lparr>listeners := (listeners q)[(LEAST k. k < M \<and> listeners q ! k = el) := 0],
              numListeners := numListeners q - 1\<rparr>)\<rparr>))"
proof (cases "numListeners q < 1")
  case True
  with assms show ?thesis by (simp add: removeListener_def deref_def)
next
  case False
  show ?thesis
  proof (cases "el \<in> set (listeners q)")
    case absent: False
    hence "\<forall>j. 0 \<le> j \<and> j < M \<longrightarrow> listeners q ! j \<noteq> el"
      using assms(4) by (auto simp: in_set_conv_nth)
    hence "removeListener_loop M 0 el q = Some (- 4, q)"
      using assms(4) by (intro removeListener_loop_absent) auto
    with assms False absent show ?thesis
      by (simp add: removeListener_def deref_def store_queue_same)
  next
    case present: True
    then obtain i where i: "i < M \<and> listeners q ! i = el"
      using assms(4) by (auto simp: in_set_conv_nth)
    define k where "k = (LEAST k. k < M \<and> listeners q ! k = el)"
    have k: "k < M \<and> listeners q ! k = el"
      unfolding k_def using i by (rule LeastI)
    have least: "\<forall>j. 0 \<le> j \<and> j < k \<longrightarrow> listeners q ! j \<noteq> el"
    proof (intro allI impI)
      fix j assume "0 \<le> j \<and> j < k"
      hence jk: "j < k" by simp
      hence "\<not> (j < M \<and> listeners q ! j = el)"
        unfolding k_def by (rule not_less_Least)
      with jk k show "listeners q ! j \<noteq> el" by simp
    qed
    have "removeListener_loop M 0 el q =
          Some (0, q\<lparr>listeners := (listeners q)[k := 0], numListeners := numListeners q - 1\<rparr>)"
      using assms(4) k least by (intro removeListener_loop_found) auto
    with assms False present show ?thesis
      by (simp add: removeListener_def deref_def k_def)
  qed
qed

text \<open>
  C5. With a non-null queue and a non-null listener, \<^verbatim>\<open>removeListener\<close> on a queue
  whose \<open>numListeners\<close> is 0 returns \<open>-2\<close> (already empty), whatever the slots
  hold. It returns \<open>-4\<close> (not found) exactly when \<open>numListeners\<close> is at least 1 and
  no slot equals the listener, and then the memory, so \<open>numListeners\<close> and every
  slot, is as it was.
\<close>

theorem removeListener_errors:
  assumes "eq \<noteq> 0" "el \<noteq> 0" "queue_mem s eq = Some q"
    and "length (listeners q) = MAX_EVENT_LISTENERS"
  shows "(numListeners q = 0 \<longrightarrow> removeListener MAX_EVENT_LISTENERS eq el s = Some (- 2, s)) \<and>
         (\<exists>r s'. removeListener MAX_EVENT_LISTENERS eq el s = Some (r, s') \<and>
            (r = - 4 \<longleftrightarrow> 1 \<le> numListeners q \<and> el \<notin> set (listeners q)) \<and>
            (r = - 4 \<longrightarrow> s' = s))"
  unfolding removeListener_result [OF assms] by auto


theorem removeListener_errors_witness:
  "removeListener 2 5 1 (memory [] [] [(5, \<lparr>listeners = [0, 0], numListeners = 0\<rparr>)]) =
     Some (- 2, memory [] [] [(5, \<lparr>listeners = [0, 0], numListeners = 0\<rparr>)]) \<and>
   removeListener 2 5 2 (memory [] [] [(5, \<lparr>listeners = [1, 0], numListeners = 1\<rparr>)]) =
     Some (- 4, memory [] [] [(5, \<lparr>listeners = [1, 0], numListeners = 1\<rparr>)])"
proof -
  let ?q0 = "\<lparr>listeners = [0, 0], numListeners = 0\<rparr>"
  let ?q1 = "\<lparr>listeners = [1, 0], numListeners = 1\<rparr>"
  have a: "removeListener 2 5 1 (memory [] [] [(5, ?q0)]) = Some (- 2, memory [] [] [(5, ?q0)])"
    using removeListener_errors [of 5 1 "memory [] [] [(5, ?q0)]" ?q0 2]
    by (simp add: memory_def)
  have b: "removeListener 2 5 2 (memory [] [] [(5, ?q1)]) = Some (- 4, memory [] [] [(5, ?q1)])"
    using removeListener_errors [of 5 2 "memory [] [] [(5, ?q1)]" ?q1 2]
    by (auto simp: memory_def)
  from a b show ?thesis by simp
qed

lemma addListener_result:
  assumes "eq \<noteq> 0" "el \<noteq> 0" "queue_mem s eq = Some q" "length (listeners q) = M"
  shows "addListener M eq el s =
    (if int M \<le> numListeners q then Some (- 2, s)
     else if 0 \<notin> set (listeners q) then Some (- 2, s)
     else Some (0, s\<lparr>queue_mem := (queue_mem s)(eq \<mapsto>
            q\<lparr>listeners := (listeners q)[(LEAST k. k < M \<and> listeners q ! k = 0) := el],
              numListeners := numListeners q + 1\<rparr>)\<rparr>))"
proof (cases "int M \<le> numListeners q")
  case True
  with assms show ?thesis by (simp add: addListener_def deref_def)
next
  case False
  show ?thesis
  proof (cases "0 \<in> set (listeners q)")
    case absent: False
    hence "\<forall>j. 0 \<le> j \<and> j < M \<longrightarrow> listeners q ! j \<noteq> 0"
      using assms(4) by (metis nth_mem)
    hence "addListener_loop M 0 el q = Some (- 2, q)"
      using assms(4) by (intro addListener_loop_full) auto
    with assms False absent show ?thesis
      by (simp add: addListener_def deref_def store_queue_same)
  next
    case present: True
    then obtain i where i: "i < M \<and> listeners q ! i = 0"
      using assms(4) by (auto simp: in_set_conv_nth)
    define k where "k = (LEAST k. k < M \<and> listeners q ! k = 0)"
    have k: "k < M \<and> listeners q ! k = 0"
      unfolding k_def using i by (rule LeastI)
    have least: "\<forall>j. 0 \<le> j \<and> j < k \<longrightarrow> listeners q ! j \<noteq> 0"
    proof (intro allI impI)
      fix j assume "0 \<le> j \<and> j < k"
      hence jk: "j < k" by simp
      hence "\<not> (j < M \<and> listeners q ! j = 0)"
        unfolding k_def by (rule not_less_Least)
      with jk k show "listeners q ! j \<noteq> 0" by simp
    qed
    have "addListener_loop M 0 el q =
          Some (0, q\<lparr>listeners := (listeners q)[k := el], numListeners := numListeners q + 1\<rparr>)"
      using assms(4) k least by (intro addListener_loop_found) auto
    with assms False present show ?thesis
      by (simp add: addListener_def deref_def k_def)
  qed
qed

lemma length_filter_update:
  "k < length xs \<Longrightarrow>
   length (filter P (xs[k := v])) + (if P (xs ! k) then 1 else 0) =
   length (filter P xs) + (if P v then 1 else 0)"
proof (induction xs arbitrary: k)
  case Nil
  then show ?case by simp
next
  case (Cons x xs)
  show ?case
  proof (cases k)
    case 0
    then show ?thesis by simp
  next
    case (Suc n)
    with Cons.prems have "n < length xs" by simp
    from Cons.IH[OF this] Suc show ?thesis by simp
  qed
qed

lemma occupied_add:
  "k < length (listeners q) \<Longrightarrow> listeners q ! k = 0 \<Longrightarrow> el \<noteq> 0 \<Longrightarrow>
   occupied (q\<lparr>listeners := (listeners q)[k := el], numListeners := n\<rparr>) = occupied q + 1"
  using length_filter_update [of k "listeners q" "\<lambda>p. p \<noteq> 0" el]
  by (simp add: occupied_def)

lemma occupied_remove:
  "k < length (listeners q) \<Longrightarrow> listeners q ! k \<noteq> 0 \<Longrightarrow>
   occupied (q\<lparr>listeners := (listeners q)[k := 0], numListeners := n\<rparr>) + 1 = occupied q"
  using length_filter_update [of k "listeners q" "\<lambda>p. p \<noteq> 0" 0]
  by (simp add: occupied_def)

lemma occupied_le: "occupied q \<le> length (listeners q)"
  by (simp add: occupied_def)

lemma occupied_full: "occupied q = length (listeners q) \<Longrightarrow> 0 \<notin> set (listeners q)"
proof -
  assume "occupied q = length (listeners q)"
  hence "length (filter (\<lambda>p. \<not> p \<noteq> 0) (listeners q)) = 0"
    using sum_length_filter_compl [of "\<lambda>p. p \<noteq> 0" "listeners q"]
    by (simp add: occupied_def)
  thus ?thesis by (auto simp: filter_empty_conv)
qed

lemma occupied_room: "occupied q < length (listeners q) \<Longrightarrow> 0 \<in> set (listeners q)"
proof (rule ccontr)
  assume lt: "occupied q < length (listeners q)" and "0 \<notin> set (listeners q)"
  hence "\<forall>p\<in>set (listeners q). p \<noteq> 0" by metis
  hence "filter (\<lambda>p. p \<noteq> 0) (listeners q) = listeners q"
    by (simp only: filter_id_conv)
  hence "occupied q = length (listeners q)" by (simp add: occupied_def)
  with lt show False by simp
qed


lemma addListener_keeps:
  assumes "eq \<noteq> 0" "queue_mem s eq = Some q" "registry_ok M q"
  shows "\<exists>r s' q'. addListener M eq el s = Some (r, s') \<and> queue_mem s' eq = Some q' \<and>
           registry_ok M q'"
proof (cases "el = 0")
  case True
  with assms show ?thesis by (simp add: addListener_def)
next
  case False
  from assms(3) have len: "length (listeners q) = M" and cnt: "numListeners q = int (occupied q)"
    by (simp_all add: registry_ok_def)
  show ?thesis
  proof (cases "int M \<le> numListeners q \<or> 0 \<notin> set (listeners q)")
    case True
    with assms False len show ?thesis
      by (auto simp: addListener_result)
  next
    case room: False
    then obtain i where i: "i < M \<and> listeners q ! i = 0"
      using len by (auto simp: in_set_conv_nth)
    define k where "k = (LEAST k. k < M \<and> listeners q ! k = 0)"
    have k: "k < M \<and> listeners q ! k = 0"
      unfolding k_def using i by (rule LeastI)
    let ?q' = "q\<lparr>listeners := (listeners q)[k := el], numListeners := numListeners q + 1\<rparr>"
    have "addListener M eq el s = Some (0, s\<lparr>queue_mem := (queue_mem s)(eq \<mapsto> ?q')\<rparr>)"
      using assms(1,2) False len room by (simp add: addListener_result k_def)
    moreover have "registry_ok M ?q'"
      using k len cnt False by (simp add: registry_ok_def occupied_add)
    ultimately show ?thesis by simp
  qed
qed

lemma removeListener_keeps:
  assumes "eq \<noteq> 0" "queue_mem s eq = Some q" "registry_ok M q"
  shows "\<exists>r s' q'. removeListener M eq el s = Some (r, s') \<and> queue_mem s' eq = Some q' \<and>
           registry_ok M q'"
proof (cases "el = 0")
  case True
  with assms show ?thesis by (simp add: removeListener_def)
next
  case False
  from assms(3) have len: "length (listeners q) = M" and cnt: "numListeners q = int (occupied q)"
    by (simp_all add: registry_ok_def)
  show ?thesis
  proof (cases "numListeners q < 1 \<or> el \<notin> set (listeners q)")
    case True
    with assms False len show ?thesis
      by (auto simp: removeListener_result)
  next
    case found: False
    then obtain i where i: "i < M \<and> listeners q ! i = el"
      using len by (auto simp: in_set_conv_nth)
    define k where "k = (LEAST k. k < M \<and> listeners q ! k = el)"
    have k: "k < M \<and> listeners q ! k = el"
      unfolding k_def using i by (rule LeastI)
    let ?q' = "q\<lparr>listeners := (listeners q)[k := 0], numListeners := numListeners q - 1\<rparr>"
    have "removeListener M eq el s = Some (0, s\<lparr>queue_mem := (queue_mem s)(eq \<mapsto> ?q')\<rparr>)"
      using assms(1,2) False len found by (simp add: removeListener_result k_def)
    moreover have "registry_ok M ?q'"
      using k len cnt False
        occupied_remove [of k q "numListeners q - 1"]
      by (simp add: registry_ok_def)
    ultimately show ?thesis by simp
  qed
qed

lemma registry_calls_keep:
  assumes "eq \<noteq> 0"
  shows "queue_mem s eq = Some q \<Longrightarrow> registry_ok M q \<Longrightarrow>
         \<exists>s' q'. registry_calls M eq cs s = Some s' \<and> queue_mem s' eq = Some q' \<and> registry_ok M q'"
proof (induction cs arbitrary: s q)
  case Nil
  then show ?case by simp
next
  case (Cons c cs)
  have "\<exists>r s1 q1. run_call M eq c s = Some (r, s1) \<and> queue_mem s1 eq = Some q1 \<and> registry_ok M q1"
  proof (cases c)
    case (Add el)
    with addListener_keeps [OF assms Cons.prems, of el] show ?thesis by simp
  next
    case (Remove el)
    with removeListener_keeps [OF assms Cons.prems, of el] show ?thesis by simp
  qed
  then obtain r s1 q1 where
    "run_call M eq c s = Some (r, s1)" "queue_mem s1 eq = Some q1" "registry_ok M q1"
    by blast
  with Cons.IH[of s1 q1] show ?case by simp
qed


text \<open>
  C7. After \<^verbatim>\<open>initEventQueue\<close> on a queue of the declared size and any sequence
  \<open>cs\<close> of \<^verbatim>\<open>addListener\<close> and \<^verbatim>\<open>removeListener\<close> calls on it (with any
  listener arguments, null included), every call returns, \<open>numListeners\<close> is the
  number of non-null slots and is at most \<open>MAX_EVENT_LISTENERS\<close>; and when it has
  reached \<open>MAX_EVENT_LISTENERS\<close>, the next \<^verbatim>\<open>addListener\<close> of a listener returns
  \<open>-2\<close> (full) and leaves the memory as it was.
\<close>

theorem registry_count_invariant:
  assumes "eq \<noteq> 0" "queue_mem s eq = Some q0"
    and "length (listeners q0) = MAX_EVENT_LISTENERS"
  shows "\<exists>s0 s' q.
           initEventQueue MAX_EVENT_LISTENERS eq s = Some s0 \<and>
           registry_calls MAX_EVENT_LISTENERS eq cs s0 = Some s' \<and>
           queue_mem s' eq = Some q \<and>
           numListeners q = int (occupied q) \<and>
           numListeners q \<le> int MAX_EVENT_LISTENERS \<and>
           (numListeners q = int MAX_EVENT_LISTENERS \<and> el \<noteq> 0 \<longrightarrow>
              addListener MAX_EVENT_LISTENERS eq el s' = Some (- 2, s'))"
proof -
  let ?M = MAX_EVENT_LISTENERS
  let ?q = "q0\<lparr>listeners := replicate ?M 0, numListeners := 0\<rparr>"
  let ?s0 = "s\<lparr>queue_mem := (queue_mem s)(eq \<mapsto> ?q)\<rparr>"
  have init: "initEventQueue ?M eq s = Some ?s0"
    using assms by (rule initEventQueue_ok)
  have ok0: "registry_ok ?M ?q"
    by (simp add: registry_ok_def occupied_def)
  have "queue_mem ?s0 eq = Some ?q" by simp
  from registry_calls_keep [OF assms(1) this ok0, of cs]
  obtain s' q where run: "registry_calls ?M eq cs ?s0 = Some s'"
    and q: "queue_mem s' eq = Some q" and ok: "registry_ok ?M q"
    by blast
  from ok have len: "length (listeners q) = ?M" and cnt: "numListeners q = int (occupied q)"
    by (simp_all add: registry_ok_def)
  have le: "numListeners q \<le> int ?M"
    using occupied_le [of q] len cnt by simp
  have full: "numListeners q = int ?M \<and> el \<noteq> 0 \<longrightarrow> addListener ?M eq el s' = Some (- 2, s')"
    using assms(1) q len by (simp add: addListener_result)
  from init run q cnt le full show ?thesis by blast
qed

lemmas registry_eval_defs =
  addListener_def removeListener_def initEventQueue_def deref_def array_get_def array_set_def
  addListener_loop.simps removeListener_loop.simps initEventQueue_loop.simps
  memory_def occupied_def

theorem registry_count_invariant_witness:
  "\<exists>s0 s' q.
     initEventQueue 2 5 (memory [] [] [(5, \<lparr>listeners = [7, 7], numListeners = 9\<rparr>)]) = Some s0 \<and>
     registry_calls 2 5 [Add 1, Add 2, Remove 1, Add 3] s0 = Some s' \<and>
     queue_mem s' 5 = Some q \<and> listeners q = [3, 2] \<and> numListeners q = 2 \<and> occupied q = 2 \<and>
     addListener 2 5 4 s' = Some (- 2, s')"
proof -
  let ?m = "memory [] [] [(5, \<lparr>listeners = [7, 7], numListeners = 9\<rparr>)]"
  define s0 where "s0 = the (initEventQueue 2 5 ?m)"
  define s' where "s' = the (registry_calls 2 5 [Add 1, Add 2, Remove 1, Add 3] s0)"
  have h: "(5::nat) \<noteq> 0" "queue_mem ?m 5 = Some \<lparr>listeners = [7, 7], numListeners = 9\<rparr>"
    "length (listeners \<lparr>listeners = [7, 7], numListeners = 9\<rparr>) = 2"
    by (simp_all add: memory_def)
  have i: "initEventQueue 2 5 ?m = Some s0"
    unfolding s0_def by (simp add: registry_eval_defs)
  have r: "registry_calls 2 5 [Add 1, Add 2, Remove 1, Add 3] s0 = Some s'"
    unfolding s'_def s0_def by (simp add: registry_eval_defs)
  have q: "queue_mem s' 5 = Some \<lparr>listeners = [3, 2], numListeners = 2\<rparr>"
    unfolding s'_def s0_def by (simp add: registry_eval_defs)
  from registry_count_invariant [OF h, of "[Add 1, Add 2, Remove 1, Add 3]" 4] i r q
  show ?thesis by (auto simp: occupied_def)
qed

section \<open>Broadcast\<close>


lemma appendEvent_frame:
  assumes "appendEvent ME p e s = Some (r, s')"
  shows "queue_mem s' = queue_mem s \<and> event_mem s' = event_mem s \<and>
         (\<forall>a. a = 0 \<or> a \<noteq> p \<longrightarrow> listener_mem s' a = listener_mem s a)"
  using assms
  by (auto simp: appendEvent_def deref_def array_get_def array_set_def
           split: if_splits option.splits)

lemma sendEvent_loop_frame:
  "sendEvent_loop ME eq e i n s = Some (n', s') \<Longrightarrow>
   queue_mem s' = queue_mem s \<and> event_mem s' = event_mem s \<and>
   (\<forall>a. a = 0 \<or> (\<forall>j. i \<le> j \<and> int j < numListeners eq \<and> j < length (listeners eq) \<longrightarrow>
                     listeners eq ! j \<noteq> a) \<longrightarrow>
        listener_mem s' a = listener_mem s a)"
proof (induction ME eq e i n s rule: sendEvent_loop.induct)
  case (1 ME eq e i n s)
  show ?case
  proof (cases "int i < numListeners eq")
    case False
    with "1.prems" show ?thesis
      by (subst (asm) sendEvent_loop.simps) simp
  next
    case True
    from "1.prems" True obtain r s1 where
      inr: "i < length (listeners eq)"
      and a: "appendEvent ME (listeners eq ! i) e s = Some (r, s1)"
      and rest: "sendEvent_loop ME eq e (i + 1) (if r < 0 then n + 1 else n) s1 = Some (n', s')"
      by (subst (asm) sendEvent_loop.simps)
         (auto simp: array_get_def split: option.splits if_splits)
    have get: "array_get (listeners eq) (int i) = Some (listeners eq ! i)"
      using inr by (simp add: array_get_def)
    note ih = "1.IH" [OF True get a refl rest]
    note fr = appendEvent_frame [OF a]
    show ?thesis
    proof (intro conjI allI impI)
      show "queue_mem s' = queue_mem s" using ih fr by simp
      show "event_mem s' = event_mem s" using ih fr by simp
      fix a
      assume h: "a = 0 \<or> (\<forall>j. i \<le> j \<and> int j < numListeners eq \<and> j < length (listeners eq) \<longrightarrow>
                     listeners eq ! j \<noteq> a)"
      have "a = 0 \<or> a \<noteq> listeners eq ! i" using h True inr by auto
      hence 1: "listener_mem s1 a = listener_mem s a" using fr by blast
      have "a = 0 \<or> (\<forall>j. i + 1 \<le> j \<and> int j < numListeners eq \<and> j < length (listeners eq) \<longrightarrow>
                     listeners eq ! j \<noteq> a)"
      proof (cases "a = 0")
        case True
        then show ?thesis by simp
      next
        case False
        with h have all: "\<forall>j. i \<le> j \<and> int j < numListeners eq \<and> j < length (listeners eq) \<longrightarrow>
                     listeners eq ! j \<noteq> a" by simp
        have "\<forall>j. i + 1 \<le> j \<and> int j < numListeners eq \<and> j < length (listeners eq) \<longrightarrow>
                     listeners eq ! j \<noteq> a"
        proof (intro allI impI)
          fix j assume "i + 1 \<le> j \<and> int j < numListeners eq \<and> j < length (listeners eq)"
          hence "i \<le> j \<and> int j < numListeners eq \<and> j < length (listeners eq)" by simp
          with all show "listeners eq ! j \<noteq> a" by blast
        qed
        then show ?thesis by simp
      qed
      hence "listener_mem s' a = listener_mem s1 a" using ih by blast
      with 1 show "listener_mem s' a = listener_mem s a" by simp
    qed
  qed
qed

text \<open>
  C8. \<^verbatim>\<open>sendEvent\<close> receives the queue by value. Whenever it returns, the memory of
  queues is as before the call (so the caller's queue, wherever it is stored, has the
  same \<open>numListeners\<close> and the same slots), the memory of events is as before, and the
  only listeners that can differ are those whose address is in one of the first
  \<open>numListeners\<close> slots of the copied queue.
\<close>

theorem sendEvent_frame:
  assumes "sendEvent MAX_EVENTS eq e s = Some (r, s')"
  shows "queue_mem s' = queue_mem s \<and> event_mem s' = event_mem s \<and>
         (\<forall>a. a \<notin> set (take (nat (numListeners eq)) (listeners eq)) \<longrightarrow>
              listener_mem s' a = listener_mem s a)"
proof -
  from assms obtain n where
    loop: "sendEvent_loop MAX_EVENTS eq e 0 0 s = Some (n, s')"
    by (auto simp: sendEvent_def split: option.splits if_splits)
  note fr = sendEvent_loop_frame [OF loop]
  have "listener_mem s' a = listener_mem s a"
    if "a \<notin> set (take (nat (numListeners eq)) (listeners eq))" for a
  proof -
    have "\<forall>j. 0 \<le> j \<and> int j < numListeners eq \<and> j < length (listeners eq) \<longrightarrow>
               listeners eq ! j \<noteq> a"
    proof (intro allI impI)
      fix j assume j: "0 \<le> j \<and> int j < numListeners eq \<and> j < length (listeners eq)"
      hence "j < nat (numListeners eq)" by linarith
      with j have "j < length (take (nat (numListeners eq)) (listeners eq))" by simp
      hence "take (nat (numListeners eq)) (listeners eq) ! j \<in>
             set (take (nat (numListeners eq)) (listeners eq))"
        by (rule nth_mem)
      moreover have "take (nat (numListeners eq)) (listeners eq) ! j = listeners eq ! j"
        using \<open>j < nat (numListeners eq)\<close> by simp
      ultimately show "listeners eq ! j \<noteq> a" using that by metis
    qed
    with fr show ?thesis by blast
  qed
  with fr show ?thesis by blast
qed


lemmas broadcast_eval_defs =
  sendEvent_def sendEvent_loop.simps appendEvent_def getNextEvent_def deref_def
  array_get_def array_set_def memory_def listener_with_def ev_def

theorem sendEvent_frame_witness:
  "\<exists>s'. sendEvent 1 \<lparr>listeners = [1, 2], numListeners = 2\<rparr> (ev 9)
           (memory [(9, ev 0)]
              [(1, listener_with 1 [4]), (2, listener_with 1 []), (3, listener_with 1 [])]
              [(5, \<lparr>listeners = [1, 2], numListeners = 2\<rparr>)]) = Some (- 1, s') \<and>
         queue_mem s' 5 = Some \<lparr>listeners = [1, 2], numListeners = 2\<rparr> \<and>
         event_mem s' 9 = Some (ev 0) \<and>
         listener_mem s' 3 = Some (listener_with 1 []) \<and>
         listener_mem s' 2 = Some (listener_with 1 [9])"
proof -
  let ?q = "\<lparr>listeners = [1, 2], numListeners = 2\<rparr>"
  let ?m = "memory [(9, ev 0)]
              [(1, listener_with 1 [4]), (2, listener_with 1 []), (3, listener_with 1 [])]
              [(5, ?q)]"
  define s' where "s' = snd (the (sendEvent 1 ?q (ev 9) ?m))"
  have a: "sendEvent 1 ?q (ev 9) ?m = Some (- 1, s')"
    unfolding s'_def by (simp add: broadcast_eval_defs)
  have b: "listener_mem s' 2 = Some (listener_with 1 [9])"
    unfolding s'_def by (simp add: broadcast_eval_defs)
  have c: "3 \<notin> set (take (nat (numListeners ?q)) (listeners ?q))" by simp
  from sendEvent_frame [OF a] c a b show ?thesis
    by (auto simp: memory_def)
qed

lemma appendEvent_returns:
  assumes "p = 0 \<or> (\<exists>l. listener_mem s p = Some l \<and> 0 \<le> numEvents l \<and> ME \<le> length (events l))"
  shows "\<exists>r s'. appendEvent ME p e s = Some (r, s') \<and> (p = 0 \<longrightarrow> r = - 1)"
proof (cases "p = 0")
  case True
  then show ?thesis by (simp add: appendEvent_null)
next
  case False
  with assms obtain l where l: "listener_mem s p = Some l" "0 \<le> numEvents l"
    "ME \<le> length (events l)" by blast
  show ?thesis
  proof (cases "int ME \<le> numEvents l")
    case True
    with False l show ?thesis by (simp add: appendEvent_full)
  next
    case room: False
    hence "nat (numEvents l) < length (events l)" using l by linarith
    with False l room show ?thesis by (simp add: appendEvent_room)
  qed
qed

lemma appendEvent_keeps_valid:
  assumes "appendEvent ME p e s = Some (r, s')" "listeners_valid ME s ps"
  shows "listeners_valid ME s' ps"
proof (cases "r < 0")
  case True
  with assms(1) have "s' = s" by (rule appendEvent_failure)
  with assms(2) show ?thesis by simp
next
  case False
  hence "0 \<le> r" by simp
  from appendEvent_success [OF assms(1) this] obtain l where
    l: "p \<noteq> 0" "listener_mem s p = Some l" "0 \<le> numEvents l"
    and s': "s' = s\<lparr>listener_mem := (listener_mem s)(p \<mapsto>
                l\<lparr>events := (events l)[nat (numEvents l) := e], numEvents := numEvents l + 1\<rparr>)\<rparr>"
    by blast
  show ?thesis
    unfolding listeners_valid_def
  proof
    fix a assume "a \<in> set ps"
    with assms(2) have v: "a = 0 \<or> (case listener_mem s a of None \<Rightarrow> False
         | Some l \<Rightarrow> 0 \<le> numEvents l \<and> ME \<le> length (events l))"
      by (simp add: listeners_valid_def)
    show "a = 0 \<or> (case listener_mem s' a of None \<Rightarrow> False
         | Some l \<Rightarrow> 0 \<le> numEvents l \<and> ME \<le> length (events l))"
    proof (cases "a = p")
      case True
      with v l s' show ?thesis by simp
    next
      case False
      with v s' show ?thesis by simp
    qed
  qed
qed

lemma sendEvent_loop_returns:
  "numListeners eq \<le> int (length (listeners eq)) \<Longrightarrow> listeners_valid ME s (listeners eq) \<Longrightarrow>
   \<exists>n' s'. sendEvent_loop ME eq e i n s = Some (n', s') \<and> n \<le> n' \<and>
     ((\<exists>j. i \<le> j \<and> int j < numListeners eq \<and> listeners eq ! j = 0) \<longrightarrow> n < n')"
proof (induction ME eq e i n s rule: sendEvent_loop.induct)
  case (1 ME eq e i n s)
  show ?case
  proof (cases "int i < numListeners eq")
    case False
    then show ?thesis
      by (subst sendEvent_loop.simps) auto
  next
    case True
    hence inr: "i < length (listeners eq)" using "1.prems"(1) by linarith
    have get: "array_get (listeners eq) (int i) = Some (listeners eq ! i)"
      using inr by (simp add: array_get_def)
    let ?p = "listeners eq ! i"
    have "?p \<in> set (listeners eq)" using inr by simp
    with "1.prems"(2) have "?p = 0 \<or>
        (\<exists>l. listener_mem s ?p = Some l \<and> 0 \<le> numEvents l \<and> ME \<le> length (events l))"
      by (auto simp: listeners_valid_def split: option.splits)
    from appendEvent_returns [OF this] obtain r s1 where
      a: "appendEvent ME ?p e s = Some (r, s1)" and null: "?p = 0 \<longrightarrow> r = - 1"
      by blast
    have v1: "listeners_valid ME s1 (listeners eq)"
      using a "1.prems"(2) by (rule appendEvent_keeps_valid)
    let ?n1 = "if r < 0 then n + 1 else n"
    from "1.IH" [OF True get a refl "1.prems"(1) v1] obtain n' s' where
      rest: "sendEvent_loop ME eq e (i + 1) ?n1 s1 = Some (n', s')" and le: "?n1 \<le> n'"
      and lt: "(\<exists>j. i + 1 \<le> j \<and> int j < numListeners eq \<and> listeners eq ! j = 0) \<longrightarrow> ?n1 < n'"
      by blast
    have step: "sendEvent_loop ME eq e i n s = Some (n', s')"
      using True get a rest by (subst sendEvent_loop.simps) simp
    have "n \<le> n'" using le by (simp split: if_splits)
    moreover have "n < n'" if "\<exists>j. i \<le> j \<and> int j < numListeners eq \<and> listeners eq ! j = 0"
    proof -
      from that obtain j where j: "i \<le> j" "int j < numListeners eq" "listeners eq ! j = 0"
        by blast
      show ?thesis
      proof (cases "j = i")
        case True
        with j null have "r = - 1" by simp
        with le show ?thesis by simp
      next
        case False
        with j have "i + 1 \<le> j" by simp
        with j lt have "?n1 < n'" by blast
        thus ?thesis by (simp split: if_splits)
      qed
    qed
    ultimately show ?thesis using step by blast
  qed
qed

text \<open>
  C9. \<^verbatim>\<open>sendEvent\<close> never writes through a null listener pointer. On a queue whose
  \<open>numListeners\<close> does not exceed the array size and whose slots are null or valid
  listeners, if a slot visited by the loop is null, then \<^verbatim>\<open>sendEvent\<close> returns
  (it does not run into undefined behaviour) with the result \<open>-1\<close>, the memory at
  the null address is untouched, and \<^verbatim>\<open>appendEvent\<close> on that slot returns \<open>-1\<close>
  with the memory as it was.
\<close>

theorem sendEvent_null_slot:
  assumes "numListeners eq \<le> int (length (listeners eq))"
    and "listeners_valid MAX_EVENTS s (listeners eq)"
    and "int i < numListeners eq" "listeners eq ! i = 0"
  shows "\<exists>s'. sendEvent MAX_EVENTS eq e s = Some (- 1, s') \<and>
           listener_mem s' 0 = listener_mem s 0 \<and>
           appendEvent MAX_EVENTS (listeners eq ! i) e s = Some (- 1, s)"
proof -
  from sendEvent_loop_returns [OF assms(1,2), of e 0 0] assms(3,4)
  obtain n' s' where loop: "sendEvent_loop MAX_EVENTS eq e 0 0 s = Some (n', s')" and pos: "0 < n'"
    by auto
  hence "sendEvent MAX_EVENTS eq e s = Some (- 1, s')"
    by (simp add: sendEvent_def)
  moreover have "listener_mem s' 0 = listener_mem s 0"
    using sendEvent_loop_frame [OF loop] by blast
  moreover have "appendEvent MAX_EVENTS (listeners eq ! i) e s = Some (- 1, s)"
    using assms(4) by (simp add: appendEvent_null)
  ultimately show ?thesis by blast
qed

theorem sendEvent_null_slot_witness:
  "\<exists>s'. sendEvent 1 \<lparr>listeners = [0, 2], numListeners = 2\<rparr> (ev 9)
           (memory [] [(2, listener_with 1 [])] []) = Some (- 1, s') \<and>
         listener_mem s' 0 = None \<and>
         appendEvent 1 0 (ev 9) (memory [] [(2, listener_with 1 [])] []) =
           Some (- 1, memory [] [(2, listener_with 1 [])] [])"
proof -
  let ?q = "\<lparr>listeners = [0, 2], numListeners = 2\<rparr>"
  let ?m = "memory [] [(2, listener_with 1 [])] []"
  have h: "numListeners ?q \<le> int (length (listeners ?q))"
    "listeners_valid 1 ?m (listeners ?q)"
    "int 0 < numListeners ?q" "listeners ?q ! 0 = 0"
    by (simp_all add: listeners_valid_def memory_def listener_with_def)
  from sendEvent_null_slot [OF h, of "ev 9"] show ?thesis
    by (auto simp: memory_def)
qed



lemma addListener_at:
  assumes "eq \<noteq> 0" "el \<noteq> 0" "queue_mem s eq = Some q" "length (listeners q) = M"
    and "numListeners q < int M" "k < M" "listeners q ! k = 0" "\<forall>j<k. listeners q ! j \<noteq> 0"
  shows "addListener M eq el s =
     Some (0, s\<lparr>queue_mem := (queue_mem s)(eq \<mapsto>
            q\<lparr>listeners := (listeners q)[k := el], numListeners := numListeners q + 1\<rparr>)\<rparr>)"
proof -
  have "addListener_loop M 0 el q =
        Some (0, q\<lparr>listeners := (listeners q)[k := el], numListeners := numListeners q + 1\<rparr>)"
    using assms(4,6,7,8) by (intro addListener_loop_found) auto
  with assms(1,2,3,5) show ?thesis
    by (simp add: addListener_def deref_def)
qed

lemma sendEvent_loop_step:
  "int i < numListeners eq \<Longrightarrow> array_get (listeners eq) (int i) = Some p \<Longrightarrow>
   appendEvent ME p e s = Some (r, s') \<Longrightarrow>
   sendEvent_loop ME eq e i n s = sendEvent_loop ME eq e (Suc i) (if r < 0 then n + 1 else n) s'"
  by (subst sendEvent_loop.simps) simp

lemma sendEvent_loop_done:
  "\<not> int i < numListeners eq \<Longrightarrow> sendEvent_loop ME eq e i n s = Some (n, s)"
  by (subst sendEvent_loop.simps) simp

text \<open>
  C4. Partial failure of a broadcast, with \<open>MAX_EVENTS = 1\<close>. Listener \<open>A\<close> holds
  one event (it is full), listener \<open>B\<close> is empty. After \<^verbatim>\<open>initEventQueue\<close>,
  \<^verbatim>\<open>addListener\<close> of \<open>A\<close> and then of \<open>B\<close> (both return 0), \<^verbatim>\<open>sendEvent\<close>
  with an event of id 9 returns \<open>-1\<close>; \<open>A\<close> is exactly as before (same count, same
  buffer); the delivery to \<open>B\<close> is kept: the next \<^verbatim>\<open>getNextEvent\<close> on \<open>B\<close>
  succeeds and copies id 9.
\<close>

theorem sendEvent_partial_failure:
  assumes "2 \<le> MAX_EVENT_LISTENERS"
    and "eq \<noteq> 0" "queue_mem s eq = Some q0" "length (listeners q0) = MAX_EVENT_LISTENERS"
    and "A \<noteq> 0" "listener_mem s A = Some la" "numEvents la = 1" "length (events la) = 1"
    and "B \<noteq> 0" "listener_mem s B = Some lb" "numEvents lb = 0" "length (events lb) = 1"
    and "A \<noteq> B" "dest \<noteq> 0" "event_mem s dest = Some d"
  shows "\<exists>s1 s2 s3 q s4 s5.
           initEventQueue MAX_EVENT_LISTENERS eq s = Some s1 \<and>
           addListener MAX_EVENT_LISTENERS eq A s1 = Some (0, s2) \<and>
           addListener MAX_EVENT_LISTENERS eq B s2 = Some (0, s3) \<and>
           queue_mem s3 eq = Some q \<and>
           sendEvent 1 q (ev 9) s3 = Some (- 1, s4) \<and>
           listener_mem s4 A = Some la \<and>
           getNextEvent B dest s4 = Some (0, s5) \<and>
           event_mem s5 dest = Some (ev 9)"
proof -
  let ?M = MAX_EVENT_LISTENERS
  define q1 where "q1 = q0\<lparr>listeners := replicate ?M 0, numListeners := 0\<rparr>"
  define s1 where "s1 = s\<lparr>queue_mem := (queue_mem s)(eq \<mapsto> q1)\<rparr>"
  define q2 where "q2 = q1\<lparr>listeners := (listeners q1)[0 := A], numListeners := numListeners q1 + 1\<rparr>"
  define s2 where "s2 = s1\<lparr>queue_mem := (queue_mem s1)(eq \<mapsto> q2)\<rparr>"
  define q3 where "q3 = q2\<lparr>listeners := (listeners q2)[1 := B], numListeners := numListeners q2 + 1\<rparr>"
  define s3 where "s3 = s2\<lparr>queue_mem := (queue_mem s2)(eq \<mapsto> q3)\<rparr>"
  define lb' where "lb' = lb\<lparr>events := (events lb)[nat (numEvents lb) := ev 9], numEvents := numEvents lb + 1\<rparr>"
  define s4 where "s4 = s3\<lparr>listener_mem := (listener_mem s3)(B \<mapsto> lb')\<rparr>"
  have init: "initEventQueue ?M eq s = Some s1"
    unfolding s1_def q1_def using assms(2,3,4) by (rule initEventQueue_ok)
  have q1: "queue_mem s1 eq = Some q1" "length (listeners q1) = ?M" "numListeners q1 = 0"
    "\<forall>j<?M. listeners q1 ! j = 0"
    by (simp_all add: s1_def q1_def)
  have add1: "addListener ?M eq A s1 = Some (0, s2)"
    unfolding s2_def q2_def using assms(1,2,5) q1
    by (intro addListener_at) auto
  have q2: "queue_mem s2 eq = Some q2" "length (listeners q2) = ?M" "numListeners q2 = 1"
    "listeners q2 ! 0 = A" "listeners q2 ! 1 = 0"
    using assms(1) q1 by (simp_all add: s2_def q2_def)
  have add2: "addListener ?M eq B s2 = Some (0, s3)"
    unfolding s3_def q3_def using assms(1,2,5,9) q2
    by (intro addListener_at) (auto simp: less_Suc_eq)
  have q3: "queue_mem s3 eq = Some q3" "length (listeners q3) = ?M" "numListeners q3 = 2"
    "listeners q3 ! 0 = A" "listeners q3 ! 1 = B"
    using assms(1) q2 by (simp_all add: s3_def q3_def)
  have lm3: "listener_mem s3 = listener_mem s" and em3: "event_mem s3 = event_mem s"
    by (simp_all add: s3_def s2_def s1_def)
  have slotA: "array_get (listeners q3) (int 0) = Some A"
    using assms(1) q3 by (simp add: array_get_def)
  have slotB: "array_get (listeners q3) (int 1) = Some B"
    using assms(1) q3 by (simp add: array_get_def)
  have toA: "appendEvent 1 A (ev 9) s3 = Some (- 2, s3)"
    using assms(5,6,7) lm3 by (intro appendEvent_full) auto
  have toB: "appendEvent 1 B (ev 9) s3 = Some (numEvents lb + 1, s4)"
    unfolding s4_def lb'_def using assms(9,10,11,12) lm3 by (intro appendEvent_room) auto
  have "sendEvent_loop 1 q3 (ev 9) 0 0 s3 = sendEvent_loop 1 q3 (ev 9) (Suc 0) (0 + 1) s3"
    using sendEvent_loop_step [OF _ slotA toA, of 0] q3(3) by simp
  also have "\<dots> = sendEvent_loop 1 q3 (ev 9) (Suc (Suc 0)) (0 + 1) s4"
    using sendEvent_loop_step [OF _ slotB toB, of "0 + 1"] q3(3) assms(11) by simp
  also have "\<dots> = Some (0 + 1, s4)"
    using q3(3) by (intro sendEvent_loop_done) simp
  finally have loop0: "sendEvent_loop 1 q3 (ev 9) 0 0 s3 = Some (0 + 1, s4)" .
  have send: "sendEvent 1 q3 (ev 9) s3 = Some (- 1, s4)"
    using loop0 by (simp add: sendEvent_def)
  have keepA: "listener_mem s4 A = Some la"
    using assms(6,13) lm3 by (simp add: s4_def)
  have lb4: "listener_mem s4 B = Some lb'" by (simp add: s4_def)
  have d4: "event_mem s4 dest = Some d" using assms(15) em3 by (simp add: s4_def)
  have "buffered lb' = buffered lb @ [event_id (ev 9)]"
    unfolding lb'_def using assms(11,12) by (intro buffered_append) auto
  moreover have "buffered lb = []"
    using assms(11) by (simp add: buffered_def)
  ultimately have buf: "buffered lb' = [] @ [9]"
    by (simp add: ev_def)
  have len: "numEvents lb' \<le> int (length (events lb'))"
    using assms(11,12) by (simp add: lb'_def)
  from getNextEvent_pops [OF assms(9,14) lb4 d4 buf len]
  obtain s5 where get: "getNextEvent B dest s4 = Some (0, s5)"
    and got: "event_mem s5 dest = Some (ev 9)"
    using assms(11) by (auto simp: lb'_def)
  from init add1 add2 q3(1) send keepA get got show ?thesis by blast
qed



theorem sendEvent_partial_failure_witness:
  "\<exists>s1 s2 s3 q s4 s5.
     initEventQueue 2 5
       (memory [(9, ev 0)] [(1, listener_with 1 [4]), (2, listener_with 1 [])]
          [(5, \<lparr>listeners = [7, 7], numListeners = 3\<rparr>)]) = Some s1 \<and>
     addListener 2 5 1 s1 = Some (0, s2) \<and>
     addListener 2 5 2 s2 = Some (0, s3) \<and>
     queue_mem s3 5 = Some q \<and>
     sendEvent 1 q (ev 9) s3 = Some (- 1, s4) \<and>
     listener_mem s4 1 = Some (listener_with 1 [4]) \<and>
     getNextEvent 2 9 s4 = Some (0, s5) \<and>
     event_mem s5 9 = Some (ev 9)"
proof -
  let ?m = "memory [(9, ev 0)] [(1, listener_with 1 [4]), (2, listener_with 1 [])]
          [(5, \<lparr>listeners = [7, 7], numListeners = 3\<rparr>)]"
  have h: "(2::nat) \<le> 2" "(5::nat) \<noteq> 0"
    "queue_mem ?m 5 = Some \<lparr>listeners = [7, 7], numListeners = 3\<rparr>"
    "length (listeners \<lparr>listeners = [7, 7], numListeners = 3\<rparr>) = 2"
    "(1::nat) \<noteq> 0" "listener_mem ?m 1 = Some (listener_with 1 [4])"
    "numEvents (listener_with 1 [4]) = 1" "length (events (listener_with 1 [4])) = 1"
    "(2::nat) \<noteq> 0" "listener_mem ?m 2 = Some (listener_with 1 [])"
    "numEvents (listener_with 1 []) = 0" "length (events (listener_with 1 [])) = 1"
    "(1::nat) \<noteq> 2" "(9::nat) \<noteq> 0" "event_mem ?m 9 = Some (ev 0)"
    by (simp_all add: memory_def listener_with_def)
  from sendEvent_partial_failure [OF h] show ?thesis .
qed

lemma sendEvent_first_slot_null:
  "sendEvent ME \<lparr>listeners = 0 # ps, numListeners = 1\<rparr> e s = Some (- 1, s)"
proof -
  let ?q = "\<lparr>listeners = 0 # ps, numListeners = 1\<rparr>"
  have slot: "array_get (listeners ?q) (int 0) = Some 0"
    by (simp add: array_get_def)
  have "sendEvent_loop ME ?q e 0 0 s = sendEvent_loop ME ?q e (Suc 0) (0 + 1) s"
    using sendEvent_loop_step [OF _ slot appendEvent_null [of ME e s], of 0] by simp
  also have "\<dots> = Some (0 + 1, s)"
    by (intro sendEvent_loop_done) simp
  finally show ?thesis by (simp add: sendEvent_def)
qed

lemmas run_eval_defs =
  after_calls_def two_listener_memory_def listener_with_def ev_def getNextEvent_def

text \<open>
  C1. The claim is that \<^verbatim>\<open>sendEvent\<close> visits every slot of the array, so that
  every registered listener receives the event wherever it is registered. The loop
  of the code stops at \<^verbatim>\<open>eq.numListeners\<close> instead. In the run below the listeners
  1 and 2 are registered and listener 1 is removed: the queue is then
  \<open>[0, 2]\<close> with \<open>numListeners = 1\<close>. \<^verbatim>\<open>sendEvent\<close> visits slot 0 only, returns
  \<open>-1\<close> and leaves the whole memory as it was: the registered listener 2 in slot 1
  receives nothing, and its next \<^verbatim>\<open>getNextEvent\<close> returns \<open>-3\<close> (empty).
\<close>

theorem sendEvent_skips_registered_listener:
  "(case initEventQueue 2 5 two_listener_memory of
      None \<Rightarrow> None
    | Some s \<Rightarrow> registry_calls 2 5 [Add 1, Add 2, Remove 1] s) =
     Some (after_calls [Add 1, Add 2, Remove 1]) \<and>
   queue_mem (after_calls [Add 1, Add 2, Remove 1]) 5 =
     Some \<lparr>listeners = [0, 2], numListeners = 1\<rparr> \<and>
   sendEvent 1 \<lparr>listeners = [0, 2], numListeners = 1\<rparr> (ev 7) (after_calls [Add 1, Add 2, Remove 1]) =
     Some (- 1, after_calls [Add 1, Add 2, Remove 1]) \<and>
   listener_mem (after_calls [Add 1, Add 2, Remove 1]) 2 = Some (listener_with 1 []) \<and>
   getNextEvent 2 9 (after_calls [Add 1, Add 2, Remove 1]) =
     Some (- 3, after_calls [Add 1, Add 2, Remove 1])"
proof (intro conjI)
  show "(case initEventQueue 2 5 two_listener_memory of
      None \<Rightarrow> None
    | Some s \<Rightarrow> registry_calls 2 5 [Add 1, Add 2, Remove 1] s) =
     Some (after_calls [Add 1, Add 2, Remove 1])"
    by (simp add: run_eval_defs registry_eval_defs)
  show "queue_mem (after_calls [Add 1, Add 2, Remove 1]) 5 =
     Some \<lparr>listeners = [0, 2], numListeners = 1\<rparr>"
    by (simp add: run_eval_defs registry_eval_defs)
  show "sendEvent 1 \<lparr>listeners = [0, 2], numListeners = 1\<rparr> (ev 7) (after_calls [Add 1, Add 2, Remove 1]) =
     Some (- 1, after_calls [Add 1, Add 2, Remove 1])"
    by (rule sendEvent_first_slot_null)
  show l2: "listener_mem (after_calls [Add 1, Add 2, Remove 1]) 2 = Some (listener_with 1 [])"
    by (simp add: run_eval_defs registry_eval_defs)
  show "getNextEvent 2 9 (after_calls [Add 1, Add 2, Remove 1]) =
     Some (- 3, after_calls [Add 1, Add 2, Remove 1])"
    using l2 by (simp add: getNextEvent_def deref_def listener_with_def)
qed

text \<open>
  C10. Listener 1 is registered twice, in slots 0 and 1. The first
  \<^verbatim>\<open>removeListener\<close> returns 0, clears slot 0 only and decrements \<open>numListeners\<close>
  from 2 to 1, and the second registration stays in slot 1; a second
  \<^verbatim>\<open>removeListener\<close> returns 0 as well and empties the queue. But between the two,
  \<^verbatim>\<open>sendEvent\<close> does not deliver to the listener, against the claim: its loop stops
  at \<open>numListeners = 1\<close>, visits the cleared slot 0 only, returns \<open>-1\<close> and leaves
  the memory, and so the still registered listener, as it was.
\<close>

theorem duplicate_removal_then_send:
  "queue_mem (after_calls [Add 1, Add 1]) 5 = Some \<lparr>listeners = [1, 1], numListeners = 2\<rparr> \<and>
   map_option fst (removeListener 2 5 1 (after_calls [Add 1, Add 1])) = Some 0 \<and>
   queue_mem (after_calls [Add 1, Add 1, Remove 1]) 5 =
     Some \<lparr>listeners = [0, 1], numListeners = 1\<rparr> \<and>
   sendEvent 1 \<lparr>listeners = [0, 1], numListeners = 1\<rparr> (ev 7) (after_calls [Add 1, Add 1, Remove 1]) =
     Some (- 1, after_calls [Add 1, Add 1, Remove 1]) \<and>
   listener_mem (after_calls [Add 1, Add 1, Remove 1]) 1 = Some (listener_with 1 []) \<and>
   map_option fst (removeListener 2 5 1 (after_calls [Add 1, Add 1, Remove 1])) = Some 0 \<and>
   queue_mem (after_calls [Add 1, Add 1, Remove 1, Remove 1]) 5 =
     Some \<lparr>listeners = [0, 0], numListeners = 0\<rparr>"
proof (intro conjI)
  show "queue_mem (after_calls [Add 1, Add 1]) 5 = Some \<lparr>listeners = [1, 1], numListeners = 2\<rparr>"
    by (simp add: run_eval_defs registry_eval_defs)
  show "map_option fst (removeListener 2 5 1 (after_calls [Add 1, Add 1])) = Some 0"
    by (simp add: run_eval_defs registry_eval_defs)
  show "queue_mem (after_calls [Add 1, Add 1, Remove 1]) 5 =
     Some \<lparr>listeners = [0, 1], numListeners = 1\<rparr>"
    by (simp add: run_eval_defs registry_eval_defs)
  show "sendEvent 1 \<lparr>listeners = [0, 1], numListeners = 1\<rparr> (ev 7) (after_calls [Add 1, Add 1, Remove 1]) =
     Some (- 1, after_calls [Add 1, Add 1, Remove 1])"
    by (rule sendEvent_first_slot_null)
  show "listener_mem (after_calls [Add 1, Add 1, Remove 1]) 1 = Some (listener_with 1 [])"
    by (simp add: run_eval_defs registry_eval_defs)
  show "map_option fst (removeListener 2 5 1 (after_calls [Add 1, Add 1, Remove 1])) = Some 0"
    by (simp add: run_eval_defs registry_eval_defs)
  show "queue_mem (after_calls [Add 1, Add 1, Remove 1, Remove 1]) 5 =
     Some \<lparr>listeners = [0, 0], numListeners = 0\<rparr>"
    by (simp add: run_eval_defs registry_eval_defs)
qed

end
